theory Spec2Isabelle
  imports Main "HOL-Library.AList"
begin

section \<open>Errors\<close>

text \<open>
  The package builds its errors with \<^verbatim>\<open>github.com/pkg/errors\<close>. An error is either a
  leaf with a message (\<^verbatim>\<open>errors.New\<close>, or \<^verbatim>\<open>errors.Errorf\<close> whose \<^verbatim>\<open>%s\<close>
  argument is a string, rendered by concatenation), a leaf whose \<^verbatim>\<open>%s\<close> argument is a
  \<^verbatim>\<open>map[string]string\<close> (kept as the format and the map, not rendered), or an error
  wrapped with a message (\<^verbatim>\<open>errors.Wrapf\<close>). The errors of a backend are opaque to
  the package: any value of the type. A Go \<^verbatim>\<open>error\<close> that may be \<^verbatim>\<open>nil\<close> is an
  \<open>error option\<close>.
\<close>

datatype error =
    New string
  | Errorf_map string "string \<rightharpoonup> string"
  | Wrapf error string

text \<open>The error directly under a wrapper, and \<^verbatim>\<open>errors.Cause\<close>, which unwraps to the root.\<close>

fun Unwrap :: "error \<Rightarrow> error option" where
  "Unwrap (Wrapf err msg) = Some err"
| "Unwrap e = None"

fun Cause :: "error \<Rightarrow> error" where
  "Cause (Wrapf err msg) = Cause err"
| "Cause e = e"

section \<open>The VM entity\<close>

text \<open>
  The struct \<^verbatim>\<open>VM\<close>. A \<^verbatim>\<open>time.Time\<close> and a \<^verbatim>\<open>time.Duration\<close> are opaque here
  (integers); a Go string is its sequence of bytes.
\<close>

record VM =
  Name :: string
  CreatedAt :: int
  Errors :: "error list"
  Lifetime :: int
  DNS :: string
  Provider :: string
  PrivateIP :: string
  PublicIP :: string
  Zone :: string

type_synonym List = "VM list"

subsection \<open>The regular expression of the region\<close>

text \<open>
  \<^verbatim>\<open>regionRE\<close> is compiled by Go's \<^verbatim>\<open>regexp\<close> package. The constructs the pattern
  \<^verbatim>\<open>(.*[^-])-?[a-z]$\<close> uses, with the meaning that package gives them: \<^verbatim>\<open>.\<close> is any
  character but the line feed, a negated class such as \<^verbatim>\<open>[^-]\<close> does match the line
  feed, \<^verbatim>\<open>$\<close> is the end of the text, \<^verbatim>\<open>*\<close> and \<^verbatim>\<open>?\<close> are greedy, and
  parentheses capture. Every character the pattern tells apart is ASCII, so matching bytes
  and matching UTF-8 runes give the same submatches.
\<close>

datatype re =
    AnyCharNotNL
  | Lit char
  | NotLit char
  | CharRange char char
  | EndText
  | Cat re re
  | Star re
  | Quest re
  | Capture re

text \<open>
  The matcher is a backtracking one: \<open>ms r (s, g)\<close> lists, in the order of preference of
  a leftmost-first search, the ways \<open>r\<close> can match a prefix of \<open>s\<close>, each as the text
  that remains and the capture so far (the pattern has one group). An iteration of a star
  has to consume text.
\<close>

function ms :: "re \<Rightarrow> string \<times> string option \<Rightarrow> (string \<times> string option) list" where
  "ms AnyCharNotNL (s, g) =
     (case s of [] \<Rightarrow> [] | c # cs \<Rightarrow> if c = CHR 0x0A then [] else [(cs, g)])"
| "ms (Lit a) (s, g) =
     (case s of [] \<Rightarrow> [] | c # cs \<Rightarrow> if c = a then [(cs, g)] else [])"
| "ms (NotLit a) (s, g) =
     (case s of [] \<Rightarrow> [] | c # cs \<Rightarrow> if c \<noteq> a then [(cs, g)] else [])"
| "ms (CharRange lo hi) (s, g) =
     (case s of [] \<Rightarrow> []
      | c # cs \<Rightarrow>
          if (of_char lo :: nat) \<le> of_char c \<and> (of_char c :: nat) \<le> of_char hi
          then [(cs, g)] else [])"
| "ms EndText (s, g) = (if s = [] then [(s, g)] else [])"
| "ms (Cat r1 r2) x = concat (map (ms r2) (ms r1 x))"
| "ms (Quest r) x = ms r x @ [x]"
| "ms (Star r) x =
     concat (map (\<lambda>y. if length (fst y) < length (fst x) then ms (Star r) y else [])
               (ms r x)) @ [x]"
| "ms (Capture r) (s, g) =
     map (\<lambda>y. (fst y, Some (take (length s - length (fst y)) s))) (ms r (s, g))"
  by pat_completeness auto
termination
  by (relation "inv_image (less_than <*lex*> less_than) (\<lambda>(r, x). (size r, length (fst x)))")
    auto

text \<open>
  The preferred match that starts at the beginning of \<open>s\<close>, as the slice
  \<^verbatim>\<open>FindStringSubmatch\<close> returns: the matched text, then the text of the group.
\<close>

definition match_at :: "re \<Rightarrow> string \<Rightarrow> string list option" where
  "match_at r s =
     (case ms r (s, None) of
        [] \<Rightarrow> None
      | y # _ \<Rightarrow>
          Some [take (length s - length (fst y)) s,
                (case snd y of None \<Rightarrow> [] | Some g \<Rightarrow> g)])"

text \<open>
  \<^verbatim>\<open>FindStringSubmatch\<close>: the pattern is not anchored at the start, so the search tries
  every start from the left; no match is \<^verbatim>\<open>nil\<close>, the empty slice.
\<close>

fun FindStringSubmatch :: "re \<Rightarrow> string \<Rightarrow> string list" where
  "FindStringSubmatch r [] = (case match_at r [] of Some m \<Rightarrow> m | None \<Rightarrow> [])"
| "FindStringSubmatch r (c # cs) =
     (case match_at r (c # cs) of Some m \<Rightarrow> m | None \<Rightarrow> FindStringSubmatch r cs)"

definition regionRE :: re where
  "regionRE =
     Cat (Capture (Cat (Star AnyCharNotNL) (NotLit (CHR ''-''))))
       (Cat (Quest (Lit (CHR ''-''))) (Cat (CharRange (CHR ''a'') (CHR ''z'')) EndText))"

subsection \<open>IsLocal and Locality\<close>

text \<open>
  \<^verbatim>\<open>config.Local\<close> belongs to another package: it is the parameter \<open>config_Local\<close>.
  \<^verbatim>\<open>log.Fatalf\<close> ends the process: \<open>Locality\<close> either returns its string or is fatal
  with the format and the zone it logs.
\<close>

datatype 'a outcome = Returns 'a | Fatalf string string

definition IsLocal :: "string \<Rightarrow> VM \<Rightarrow> bool" where
  "IsLocal config_Local vm \<longleftrightarrow> Zone vm = config_Local"

definition Locality :: "string \<Rightarrow> VM \<Rightarrow> string outcome" where
  "Locality config_Local vm =
     (if IsLocal config_Local vm
      then Returns (''region='' @ Zone vm @ '',zone='' @ Zone vm)
      else (let match = FindStringSubmatch regionRE (Zone vm) in
            if length match = 2
            then Returns (''region='' @ match ! 1 @ '',zone='' @ Zone vm)
            else Fatalf ''unable to parse region from zone %q'' (Zone vm)))"

text \<open>
  For the statements about zones: a lowercase ASCII letter; the text after the last line
  feed of a string; the suffixes a greedy \<^verbatim>\<open>.*\<close> leaves, longest match first; the tail
  \<^verbatim>\<open>-?[a-z]$\<close> of the pattern.
\<close>

definition lower :: "char \<Rightarrow> bool" where
  "lower l \<longleftrightarrow> (97::nat) \<le> of_char l \<and> (of_char l :: nat) \<le> 122"

fun last_line :: "string \<Rightarrow> string" where
  "last_line [] = []"
| "last_line (x # xs) = (if CHR 0x0A \<in> set (x # xs) then last_line xs else x # xs)"

fun cand :: "string \<Rightarrow> string list" where
  "cand [] = [[]]"
| "cand (c # cs) = (if c = CHR 0x0A then [c # cs] else cand cs @ [c # cs])"

definition tailRE :: re where
  "tailRE = Cat (Quest (Lit (CHR ''-''))) (Cat (CharRange (CHR ''a'') (CHR ''z'')) EndText)"

definition step :: "nat \<Rightarrow> string \<Rightarrow> string \<Rightarrow> (string \<times> string option) list" where
  "step n full t =
     (case t of
        [] \<Rightarrow> []
      | c # t' \<Rightarrow>
          if c \<noteq> CHR ''-'' then ms tailRE (t', Some (take (n - length t') full)) else [])"

definition sample_vm :: "string \<Rightarrow> string \<Rightarrow> string \<Rightarrow> VM" where
  "sample_vm name provider zone =
     \<lparr>Name = name, CreatedAt = 0, Errors = [], Lifetime = 0, DNS = [], Provider = provider,
      PrivateIP = [], PublicIP = [], Zone = zone\<rparr>"

section \<open>The provider contract\<close>

text \<open>
  Of the \<^verbatim>\<open>Provider\<close> interface the dispatch engine uses \<^verbatim>\<open>Name()\<close> and
  \<^verbatim>\<open>FindActiveAccount()\<close>. A backend is opaque and may have effects, so its method is
  a transformer of a world \<open>'w\<close> that returns Go's pair \<^verbatim>\<open>(string, error)\<close>.
\<close>

record 'w Provider =
  Provider_Name :: string
  Provider_FindActiveAccount :: "'w \<Rightarrow> (string \<times> error option) \<times> 'w"

section \<open>Dispatch: ForProvider and ProvidersSequential\<close>

text \<open>
  The registry \<^verbatim>\<open>Providers\<close> is a package variable, read only by the functions below;
  it is their first argument. An action is a Go closure: it may write to the variables it
  captures, so it takes a state \<open>'s\<close> and returns the new one with its error.
\<close>

definition ForProvider ::
  "(string \<rightharpoonup> 'p) \<Rightarrow> string \<Rightarrow> ('p \<Rightarrow> 's \<Rightarrow> error option \<times> 's) \<Rightarrow> 's \<Rightarrow> error option \<times> 's" where
  "ForProvider Providers named action s =
     (case Providers named of
        None \<Rightarrow> (Some (New (''unknown vm provider: '' @ named)), s)
      | Some p \<Rightarrow>
          (case action p s of
             (Some err, s') \<Rightarrow> (Some (Wrapf err (''in provider: '' @ named)), s')
           | (None, s') \<Rightarrow> (None, s')))"

fun ProvidersSequential ::
  "(string \<rightharpoonup> 'p) \<Rightarrow> string list \<Rightarrow> ('p \<Rightarrow> 's \<Rightarrow> error option \<times> 's) \<Rightarrow> 's \<Rightarrow> error option \<times> 's" where
  "ProvidersSequential Providers [] action s = (None, s)"
| "ProvidersSequential Providers (name # named) action s =
     (case ForProvider Providers name action s of
        (Some err, s') \<Rightarrow> (Some err, s')
      | (None, s') \<Rightarrow> ProvidersSequential Providers named action s')"

text \<open>
  To speak about which invocations happen, an action is run with a log beside its state:
  every invocation appends the provider it received.
\<close>

definition logged ::
  "('p \<Rightarrow> 's \<Rightarrow> error option \<times> 's) \<Rightarrow> 'p \<Rightarrow> 's \<times> 'p list \<Rightarrow> error option \<times> ('s \<times> 'p list)" where
  "logged action p sl =
     (case action p (fst sl) of (e, s') \<Rightarrow> (e, (s', snd sl @ [p])))"

text \<open>Sample backends and actions for the concrete instances below.\<close>

definition sample_provider :: "string \<Rightarrow> string \<Rightarrow> nat Provider" where
  "sample_provider name acct =
     \<lparr>Provider_Name = name, Provider_FindActiveAccount = (\<lambda>n. ((acct, None), Suc n))\<rparr>"

definition sample_registry :: "string \<rightharpoonup> nat Provider" where
  "sample_registry =
     [''aws'' \<mapsto> sample_provider ''aws'' ''acct1'',
      ''gce'' \<mapsto> sample_provider ''gce'' ''acct1'',
      ''local'' \<mapsto> sample_provider ''local'' [] ]"

definition fail_on :: "string \<Rightarrow> nat Provider \<Rightarrow> nat \<Rightarrow> error option \<times> nat" where
  "fail_on bad p n =
     (if Provider_Name p = bad then Some (New ''boom'') else None, Suc n)"

section \<open>The identity consensus resolver\<close>

text \<open>
  The package variable \<^verbatim>\<open>cachedActiveAccount\<close>, with the world behind the backends,
  is the state \<^verbatim>\<open>FindActiveAccount\<close> runs in.
\<close>

record 'w globals =
  cachedActiveAccount :: string
  backends :: 'w

text \<open>
  Go leaves the order of a \<^verbatim>\<open>range\<close> over a map unspecified. Each such loop takes the
  order it runs in as a list of keys; \<open>range_order m ks\<close> says that \<open>ks\<close> is one of
  the orders the loop over \<open>m\<close> can take. \<^verbatim>\<open>AllProviderNames()\<close> returns the keys of
  the registry in such an order.
\<close>

definition range_order :: "('k \<rightharpoonup> 'v) \<Rightarrow> 'k list \<Rightarrow> bool" where
  "range_order m ks \<longleftrightarrow> distinct ks \<and> set ks = dom m"

text \<open>
  The closure given to \<^verbatim>\<open>ProvidersSequential\<close>: it stores the account under
  \<^verbatim>\<open>p.Name()\<close> in \<^verbatim>\<open>providerAccounts\<close>, whatever the error, and returns the error.
\<close>

definition account_action ::
  "'w Provider \<Rightarrow> (string \<rightharpoonup> string) \<times> 'w \<Rightarrow> error option \<times> ((string \<rightharpoonup> string) \<times> 'w)" where
  "account_action p st =
     (case Provider_FindActiveAccount p (snd st) of
        ((acct, err), w') \<Rightarrow> (err, ((fst st)(Provider_Name p \<mapsto> acct), w')))"

text \<open>
  The body of the counting loop, for the key \<open>k\<close> of \<^verbatim>\<open>providerAccounts\<close>.
  \<^verbatim>\<open>counts\<close> is only written and measured, so it is an association list with distinct
  keys, and its length is \<^verbatim>\<open>len(counts)\<close>.
\<close>

definition count_account ::
  "(string \<rightharpoonup> string) \<Rightarrow> string \<Rightarrow> string \<times> (string \<times> int) list \<Rightarrow> string \<times> (string \<times> int) list" where
  "count_account providerAccounts k lc =
     (case providerAccounts k of
        None \<Rightarrow> lc
      | Some acct \<Rightarrow>
          if length acct > 0
          then (acct,
                AList.update acct ((case map_of (snd lc) acct of None \<Rightarrow> 0 | Some n \<Rightarrow> n) + 1)
                  (snd lc))
          else lc)"

text \<open>
  \<open>names\<close> is what \<^verbatim>\<open>AllProviderNames()\<close> returned, \<open>order\<close> the order of the
  loop over \<^verbatim>\<open>providerAccounts\<close>.
\<close>

definition FindActiveAccount ::
  "(string \<rightharpoonup> 'w Provider) \<Rightarrow> string list \<Rightarrow> string list \<Rightarrow> 'w globals
     \<Rightarrow> (string \<times> error option) \<times> 'w globals" where
  "FindActiveAccount Providers names order st =
     (if length (cachedActiveAccount st) > 0 then ((cachedActiveAccount st, None), st)
      else
        (case ProvidersSequential Providers names account_action (Map.empty, backends st) of
           (Some err, (providerAccounts, w)) \<Rightarrow> (([], Some err), st\<lparr>backends := w\<rparr>)
         | (None, (providerAccounts, w)) \<Rightarrow>
             (case fold (count_account providerAccounts) order ([], []) of
                (lastAccount, counts) \<Rightarrow>
                  if length counts = 0
                  then (([], Some (New ''no Providers returned any active accounts'')),
                        st\<lparr>backends := w\<rparr>)
                  else if length counts = 1
                  then ((lastAccount, None),
                        st\<lparr>cachedActiveAccount := lastAccount, backends := w\<rparr>)
                  else (([], Some (Errorf_map ''multiple active Provider accounts detected: %s''
                                     providerAccounts)),
                        st\<lparr>backends := w\<rparr>))))"

text \<open>A sequence of calls, each with the registry and the orders it meets.\<close>

definition FindActiveAccount_calls ::
  "((string \<rightharpoonup> 'w Provider) \<times> string list \<times> string list) list \<Rightarrow> 'w globals \<Rightarrow> 'w globals" where
  "FindActiveAccount_calls calls st =
     fold (\<lambda>(Providers, names, order) st. snd (FindActiveAccount Providers names order st)) calls st"

text \<open>
  For the statements: the map of the answers when the backend registered as \<open>k\<close>
  answers \<open>answer k\<close>; the distinct non-empty answers; the non-empty accounts stored
  under the keys \<open>ks\<close>.
\<close>

definition provider_accounts :: "(string \<rightharpoonup> 'p) \<Rightarrow> (string \<Rightarrow> string) \<Rightarrow> (string \<rightharpoonup> string)" where
  "provider_accounts Providers answer k =
     (case Providers k of None \<Rightarrow> None | Some p \<Rightarrow> Some (answer k))"

definition distinct_accounts :: "(string \<rightharpoonup> 'p) \<Rightarrow> (string \<Rightarrow> string) \<Rightarrow> string set" where
  "distinct_accounts Providers answer = {a. \<exists>k \<in> dom Providers. answer k = a \<and> a \<noteq> []}"

definition votes :: "(string \<rightharpoonup> string) \<Rightarrow> string list \<Rightarrow> string set" where
  "votes providerAccounts ks = {a. \<exists>k \<in> set ks. providerAccounts k = Some a \<and> a \<noteq> []}"

text \<open>More sample registries, and the state of a process that has just started.\<close>

definition split_registry :: "string \<rightharpoonup> nat Provider" where
  "split_registry =
     [''aws'' \<mapsto> sample_provider ''aws'' ''acct1'',
      ''gce'' \<mapsto> sample_provider ''gce'' ''acct2'']"

definition silent_registry :: "string \<rightharpoonup> nat Provider" where
  "silent_registry = [''local'' \<mapsto> sample_provider ''local'' [] ]"

definition sample_answer :: "string \<Rightarrow> string" where
  "sample_answer k = (if k = ''aws'' then ''acct1'' else if k = ''gce'' then ''acct2'' else [])"

definition start :: "nat globals" where
  "start = \<lparr>cachedActiveAccount = [], backends = 0\<rparr>"

section \<open>Concurrent dispatch: FanOut and ProvidersParallel\<close>

text \<open>
  \<^verbatim>\<open>errgroup.Group\<close> of \<^verbatim>\<open>golang.org/x/sync/errgroup\<close>: \<^verbatim>\<open>Go(f)\<close> starts \<open>f\<close> in a
  new goroutine; \<^verbatim>\<open>Wait()\<close> blocks until all of them have returned and returns the first
  error that is not \<^verbatim>\<open>nil\<close>, first in the order in which the goroutines finish. The body
  of a goroutine runs here as one step: \<open>Wait\<close> takes the bodies in the order they
  run.
\<close>

fun Wait :: "('s \<Rightarrow> error option \<times> 's) list \<Rightarrow> 's \<Rightarrow> error option \<times> 's" where
  "Wait [] s = (None, s)"
| "Wait (f # fs) s =
     (case f s of
        (e, s') \<Rightarrow>
          (case Wait fs s' of
             (e', s'') \<Rightarrow> ((case e of Some err \<Rightarrow> Some err | None \<Rightarrow> e'), s'')))"

text \<open>
  The closures handed to \<^verbatim>\<open>g.Go\<close> name the loop variables (\<^verbatim>\<open>name\<close>, and \<^verbatim>\<open>vms\<close> in
  \<^verbatim>\<open>FanOut\<close>); they take no copy of them. The package has no \<^verbatim>\<open>go.mod\<close>, so it is
  compiled with the loops of Go before 1.22: the variables of a \<^verbatim>\<open>for\<close> statement exist
  once for the loop, every iteration assigns to them, and a closure reads them when it
  runs. A goroutine that runs after the loop has moved on reads the values of a later
  iteration, and one that runs after the loop has ended reads those of the last.
  A schedule lists, for the bodies in the order they run, the index of the iteration
  whose values each of them reads: the \<open>k\<close>-th body to run has been started by
  then, so the loop has reached iteration \<open>k\<close> at least, and the loop never steps
  back.
\<close>

definition schedule :: "nat \<Rightarrow> nat list \<Rightarrow> bool" where
  "schedule n sched \<longleftrightarrow>
     length sched = n \<and> sorted sched
     \<and> list_all (\<lambda>ki. fst ki \<le> snd ki \<and> snd ki < n) (enumerate 0 sched)"

definition ProvidersParallel ::
  "(string \<rightharpoonup> 'p) \<Rightarrow> string list \<Rightarrow> ('p \<Rightarrow> 's \<Rightarrow> error option \<times> 's) \<Rightarrow> nat list \<Rightarrow> 's
     \<Rightarrow> error option \<times> 's" where
  "ProvidersParallel Providers named action sched s =
     Wait (map (\<lambda>i. ForProvider Providers (named ! i) action) sched) s"

text \<open>
  The first loop of \<^verbatim>\<open>FanOut\<close>: a missing key reads as the empty list, to which the VM
  is appended.
\<close>

definition collate :: "List \<Rightarrow> (string \<rightharpoonup> List)" where
  "collate list =
     fold (\<lambda>vm m. m(Provider vm \<mapsto> (case m (Provider vm) of None \<Rightarrow> [] | Some vms \<Rightarrow> vms) @ [vm]))
       list Map.empty"

text \<open>
  The body of a goroutine of \<^verbatim>\<open>FanOut\<close>, given the values of \<^verbatim>\<open>name\<close> and \<^verbatim>\<open>vms\<close> it
  reads.
\<close>

definition FanOut_task ::
  "(string \<rightharpoonup> 'p) \<Rightarrow> ('p \<Rightarrow> List \<Rightarrow> 's \<Rightarrow> error option \<times> 's) \<Rightarrow> string \<times> List \<Rightarrow> 's
     \<Rightarrow> error option \<times> 's" where
  "FanOut_task Providers action nv s =
     (case Providers (fst nv) of
        None \<Rightarrow> (Some (New (''unknown provider name: '' @ fst nv)), s)
      | Some p \<Rightarrow> action p (snd nv) s)"

text \<open>
  \<open>order\<close> is the order the loop over the map \<open>m\<close> takes.
\<close>

definition FanOut ::
  "(string \<rightharpoonup> 'p) \<Rightarrow> List \<Rightarrow> ('p \<Rightarrow> List \<Rightarrow> 's \<Rightarrow> error option \<times> 's) \<Rightarrow> string list \<Rightarrow> nat list
     \<Rightarrow> 's \<Rightarrow> error option \<times> 's" where
  "FanOut Providers list action order sched s =
     (let m = collate list;
          entries = map (\<lambda>name. (name, case m name of None \<Rightarrow> [] | Some vms \<Rightarrow> vms)) order
      in Wait (map (\<lambda>i. FanOut_task Providers action (entries ! i)) sched) s)"

text \<open>
  The log for an action of \<^verbatim>\<open>FanOut\<close>, and sample inputs.
\<close>

definition logged2 ::
  "('p \<Rightarrow> List \<Rightarrow> 's \<Rightarrow> error option \<times> 's) \<Rightarrow> 'p \<Rightarrow> List \<Rightarrow> 's \<times> ('p \<times> List) list
     \<Rightarrow> error option \<times> ('s \<times> ('p \<times> List) list)" where
  "logged2 action p vms sl =
     (case action p vms (fst sl) of (e, s') \<Rightarrow> (e, (s', snd sl @ [(p, vms)])))"

definition count_vms :: "nat Provider \<Rightarrow> List \<Rightarrow> nat \<Rightarrow> error option \<times> nat" where
  "count_vms p vms n = (None, n + length vms)"

definition sample_list :: List where
  "sample_list =
     [sample_vm ''n1'' ''aws'' ''us-east-2b'', sample_vm ''n2'' ''gce'' ''us-east1-b'',
      sample_vm ''n3'' ''aws'' ''us-east-2b'']"

definition stray_list :: List where
  "stray_list = [sample_vm ''n1'' ''azure'' ''eastus-a'', sample_vm ''n2'' ''aws'' ''us-east-2b'']"

section \<open>Properties of Locality\<close>

lemma lower_not_special: "lower l \<Longrightarrow> l \<noteq> CHR ''-'' \<and> l \<noteq> CHR 0x0A"
  by (auto simp: lower_def)

lemma ms_star_any: "ms (Star AnyCharNotNL) (s, g) = map (\<lambda>t. (t, g)) (cand s)"
  by (induction s) auto

lemma ms_tail:
  "ms tailRE (t, g) =
     (if \<exists>l. lower l \<and> (t = [CHR ''-'', l] \<or> t = [l]) then [([], g)] else [])"
  by (auto simp: tailRE_def lower_def split: list.splits)

lemma ms_regionRE:
  "ms regionRE (s, None) = concat (map (step (length s) s) (cand s))"
proof -
  have fold_step:
    "concat (map (\<lambda>y. ms tailRE (fst y, Some (take (length s - length (fst y)) s)))
           (concat (map (\<lambda>t. ms (NotLit (CHR ''-'')) (t, g)) ts)))
        = concat (map (step (length s) s) ts)" for ts g
    by (induction ts) (auto simp: step_def split: list.splits)
  show ?thesis
    unfolding regionRE_def tailRE_def [symmetric]
    by (simp only: ms.simps(6) ms.simps(9) ms_star_any map_map comp_def fst_conv fold_step)
qed

lemma region_match_at_start:
  assumes "c \<noteq> CHR ''-''" and "lower l"
  shows "concat (map (step n full) (cand (u @ [c, l])))
           = (if CHR 0x0A \<in> set u then [] else [([], Some (take (n - 1) full))])"
proof (induction u)
  case Nil
  from assms show ?case
    by (auto simp: step_def ms_tail dest: lower_not_special)
next
  case (Cons x xs)
  have "step n full (x # xs @ [c, l]) = []"
    using assms by (cases xs) (auto simp: step_def ms_tail dest: lower_not_special)
  with Cons show ?case by auto
qed

lemma ms_region_shape:
  assumes "c \<noteq> CHR ''-''" and "lower l"
  shows "ms regionRE (u @ [c, l], None)
           = (if CHR 0x0A \<in> set u then [] else [([], Some (u @ [c]))])"
proof -
  have "take (length (u @ [c, l]) - 1) (u @ [c, l]) = u @ [c]" by simp
  then show ?thesis
    using region_match_at_start [OF assms, of "length (u @ [c, l])" "u @ [c, l]" u]
    by (simp only: ms_regionRE)
qed

lemma match_at_region:
  assumes "c \<noteq> CHR ''-''" and "lower l"
  shows "match_at regionRE (u @ [c, l])
           = (if CHR 0x0A \<in> set u then None else Some [u @ [c, l], u @ [c]])"
  by (simp add: match_at_def ms_region_shape [OF assms] del: ms.simps)

lemma FindStringSubmatch_region:
  assumes "c \<noteq> CHR ''-''" and "lower l"
  shows "FindStringSubmatch regionRE (u @ [c, l]) = [last_line u @ [c, l], last_line u @ [c]]"
proof (induction u)
  case Nil
  show ?case
    using match_at_region [OF assms, of "[]"] by simp
next
  case (Cons x xs)
  show ?case
    using match_at_region [OF assms, of "x # xs"] Cons by auto
qed

lemma last_line_id: "CHR 0x0A \<notin> set u \<Longrightarrow> last_line u = u"
  by (cases u) auto

text \<open>
  C8. \<^verbatim>\<open>Locality()\<close> on a VM with zone \<^verbatim>\<open>us-east1-b\<close> (which is not the local
  sentinel) returns \<^verbatim>\<open>region=us-east1,zone=us-east1-b\<close>, and on a VM whose zone is the
  local sentinel \<open>Z\<close> it returns \<^verbatim>\<open>region=Z,zone=Z\<close>; neither is fatal.
\<close>

theorem Locality_examples:
  "(config_Local \<noteq> ''us-east1-b'' \<longrightarrow>
      Locality config_Local (vm\<lparr>Zone := ''us-east1-b''\<rparr>)
        = Returns ''region=us-east1,zone=us-east1-b'')
   \<and> Locality config_Local (vm\<lparr>Zone := config_Local\<rparr>)
        = Returns (''region='' @ config_Local @ '',zone='' @ config_Local)"
  by (simp add: Locality_def IsLocal_def regionRE_def match_at_def)

theorem Locality_examples_witness:
  "Locality ''local'' (sample_vm ''n1'' ''gce'' ''us-east1-b'')
     = Returns ''region=us-east1,zone=us-east1-b''
   \<and> Locality ''local'' (sample_vm ''n2'' ''local'' ''local'')
     = Returns ''region=local,zone=local''"
  using Locality_examples [of "''local''" "sample_vm ''n1'' ''gce'' ''us-east1-b''"]
    Locality_examples [of "''local''" "sample_vm ''n2'' ''local'' ''local''"]
  by (simp add: sample_vm_def)

text \<open>
  C10, as the code has it. For a VM that is not local and whose zone ends in a lowercase
  ASCII letter with a character other than the hyphen right before it, \<^verbatim>\<open>Locality()\<close>
  is not fatal: the zone matches, and the region is the last line of the zone without its
  final letter. That is the whole zone without its final letter when no line feed stands
  before the zone's last two characters.
\<close>

theorem Locality_no_separator:
  assumes "Zone vm = u @ [c, l]" and "c \<noteq> CHR ''-''" and "lower l"
    and "\<not> IsLocal config_Local vm"
  shows "Locality config_Local vm
           = Returns (''region='' @ last_line u @ [c] @ '',zone='' @ Zone vm)
         \<and> (CHR 0x0A \<notin> set u \<longrightarrow> last_line u @ [c] = u @ [c])"
  using assms(1,4)
  by (simp add: Locality_def FindStringSubmatch_region [OF assms(2,3)] last_line_id)

theorem Locality_no_separator_witness:
  "Locality ''local'' (sample_vm ''n1'' ''gce'' ''useast1b'')
     = Returns ''region=useast1,zone=useast1b''"
proof -
  have z: "Zone (sample_vm ''n1'' ''gce'' ''useast1b'') = ''useast'' @ [CHR ''1'', CHR ''b'']"
    by (simp add: sample_vm_def)
  have c: "CHR ''1'' \<noteq> CHR ''-''" by simp
  have l: "lower (CHR ''b'')" by (simp add: lower_def)
  have n: "\<not> IsLocal ''local'' (sample_vm ''n1'' ''gce'' ''useast1b'')"
    by (simp add: IsLocal_def sample_vm_def)
  show ?thesis
    using Locality_no_separator [OF z c l n] by (simp add: sample_vm_def)
qed

text \<open>
  C10 as stated fails when a line feed stands before the last two characters of the zone:
  \<^verbatim>\<open>.\<close> does not match it, so the leftmost match starts after it and the region is
  \<^verbatim>\<open>b\<close>, not the zone without its final letter.
\<close>

theorem Locality_line_feed_counterexample:
  "Locality ''local'' (sample_vm ''n1'' ''gce'' [CHR ''a'', CHR 0x0A, CHR ''b'', CHR ''c''])
     = Returns (''region=b,zone='' @ [CHR ''a'', CHR 0x0A, CHR ''b'', CHR ''c''])
   \<and> Locality ''local'' (sample_vm ''n1'' ''gce'' [CHR ''a'', CHR 0x0A, CHR ''b'', CHR ''c''])
     \<noteq> Returns (''region='' @ [CHR ''a'', CHR 0x0A, CHR ''b''] @ '',zone=''
                  @ [CHR ''a'', CHR 0x0A, CHR ''b'', CHR ''c''])"
  by (simp add: Locality_def IsLocal_def sample_vm_def regionRE_def match_at_def)

section \<open>Properties of ForProvider and ProvidersSequential\<close>

text \<open>
  C6. \<^verbatim>\<open>ForProvider(named, action)\<close>: when \<open>named\<close> is not a key of the registry the
  result is the error \<^verbatim>\<open>unknown vm provider: <named>\<close> and the action is not invoked
  (the log and the state are as before); when it is registered the action is invoked once
  on the resolved provider, and an error of the action comes back wrapped with the message
  \<^verbatim>\<open>in provider: <named>\<close>, the original error directly under the wrapper and its root
  cause kept; when the action succeeds the result is \<^verbatim>\<open>nil\<close>.
\<close>

theorem ForProvider_contract:
  "(Providers named = None \<longrightarrow>
      ForProvider Providers named (logged action) (s, l)
        = (Some (New (''unknown vm provider: '' @ named)), (s, l)))
   \<and> (\<forall>p err s'. Providers named = Some p \<and> action p s = (Some err, s') \<longrightarrow>
         (\<exists>w. ForProvider Providers named (logged action) (s, l) = (Some w, (s', l @ [p]))
           \<and> w = Wrapf err (''in provider: '' @ named)
           \<and> Unwrap w = Some err \<and> Cause w = Cause err))
   \<and> (\<forall>p s'. Providers named = Some p \<and> action p s = (None, s') \<longrightarrow>
         ForProvider Providers named (logged action) (s, l) = (None, (s', l @ [p])))"
  by (simp add: ForProvider_def logged_def)

theorem ForProvider_contract_witness:
  "ForProvider sample_registry ''azure'' (logged (fail_on ''gce'')) (0, [])
     = (Some (New ''unknown vm provider: azure''), (0, []))
   \<and> ForProvider sample_registry ''gce'' (logged (fail_on ''gce'')) (0, [])
     = (Some (Wrapf (New ''boom'') ''in provider: gce''), (1, [sample_provider ''gce'' ''acct1'']))
   \<and> ForProvider sample_registry ''aws'' (logged (fail_on ''gce'')) (0, [])
     = (None, (1, [sample_provider ''aws'' ''acct1'']))"
  using ForProvider_contract [of sample_registry "''azure''" "fail_on ''gce''" 0 "[]"]
    ForProvider_contract [of sample_registry "''gce''" "fail_on ''gce''" 0 "[]"]
    ForProvider_contract [of sample_registry "''aws''" "fail_on ''gce''" 0 "[]"]
  by (simp add: sample_registry_def sample_provider_def fail_on_def)

text \<open>
  C4. \<^verbatim>\<open>ProvidersSequential\<close> over the names \<open>[A, B, C]\<close>, where the action succeeds
  for \<open>A\<close> and returns an error for \<open>B\<close>: the action is invoked for \<open>A\<close>, then for
  \<open>B\<close>, and for nothing else (the log gains exactly these two entries, and the state is
  the one \<open>B\<close>'s invocation left); the result is \<open>B\<close>'s error wrapped with
  \<^verbatim>\<open>in provider: B\<close>.
\<close>

theorem ProvidersSequential_fail_fast:
  assumes "Providers A = Some pA" and "Providers B = Some pB"
    and "action pA s = (None, s1)" and "action pB s1 = (Some err, s2)"
  shows "ProvidersSequential Providers [A, B, C] (logged action) (s, l)
           = (Some (Wrapf err (''in provider: '' @ B)), (s2, l @ [pA, pB]))"
  using assms by (simp add: ForProvider_def logged_def)

theorem ProvidersSequential_fail_fast_witness:
  "ProvidersSequential sample_registry [''aws'', ''gce'', ''local''] (logged (fail_on ''gce'')) (0, [])
     = (Some (Wrapf (New ''boom'') ''in provider: gce''),
        (2, [sample_provider ''aws'' ''acct1'', sample_provider ''gce'' ''acct1'']))"
proof -
  have a: "sample_registry ''aws'' = Some (sample_provider ''aws'' ''acct1'')"
    and b: "sample_registry ''gce'' = Some (sample_provider ''gce'' ''acct1'')"
    by (simp_all add: sample_registry_def)
  have c: "fail_on ''gce'' (sample_provider ''aws'' ''acct1'') 0 = (None, 1)"
    and d: "fail_on ''gce'' (sample_provider ''gce'' ''acct1'') 1 = (Some (New ''boom''), 2)"
    by (simp_all add: fail_on_def sample_provider_def)
  show ?thesis
    using ProvidersSequential_fail_fast [where Providers = sample_registry
        and action = "fail_on ''gce''" and A = "''aws''" and B = "''gce''" and C = "''local''"
        and s = 0 and ?s1.0 = 1 and ?s2.0 = 2 and l = "[]"
        and pA = "sample_provider ''aws'' ''acct1''" and pB = "sample_provider ''gce'' ''acct1''"
        and err = "New ''boom''", OF a b c d]
    by (simp only: append_Nil append_Cons)
qed

section \<open>Properties of FindActiveAccount\<close>

lemma fold_count_keys:
  "fst ` set (snd (fold (count_account pa) ks lc)) = fst ` set (snd lc) \<union> votes pa ks"
  by (induction ks arbitrary: lc)
    (auto simp: count_account_def votes_def dom_update split: option.splits)

lemma fold_count_distinct:
  "distinct (map fst (snd lc)) \<Longrightarrow> distinct (map fst (snd (fold (count_account pa) ks lc)))"
  by (induction ks arbitrary: lc)
    (auto simp: count_account_def distinct_update split: option.splits)

lemma fold_count_length:
  "length (snd (fold (count_account pa) ks ([], []))) = card (votes pa ks)"
proof -
  let ?c = "snd (fold (count_account pa) ks ([], []))"
  have "distinct (map fst ?c)" by (rule fold_count_distinct) simp
  then have "card (fst ` set ?c) = length ?c"
    using distinct_card [of "map fst ?c"] by simp
  moreover have "fst ` set ?c = votes pa ks"
    using fold_count_keys [of pa ks "([], [])"] by simp
  ultimately show ?thesis by simp
qed

lemma fold_count_last_cases:
  "fst (fold (count_account pa) ks lc) = fst lc \<or> fst (fold (count_account pa) ks lc) \<in> votes pa ks"
proof (induction ks arbitrary: lc)
  case Nil
  show ?case by simp
next
  case (Cons k ks)
  from Cons [of "count_account pa k lc"] show ?case
    by (auto simp: count_account_def votes_def split: option.splits if_splits)
qed

lemma fold_count_last:
  "votes pa ks \<noteq> {} \<Longrightarrow> fst (fold (count_account pa) ks lc) \<in> votes pa ks"
proof (induction ks arbitrary: lc)
  case Nil
  then show ?case by (simp add: votes_def)
next
  case (Cons k ks)
  show ?case
  proof (cases "\<exists>a. pa k = Some a \<and> a \<noteq> []")
    case True
    then obtain a where a: "pa k = Some a" "a \<noteq> []" by blast
    then have "fst (count_account pa k lc) = a"
      by (simp add: count_account_def)
    with fold_count_last_cases [of pa ks "count_account pa k lc"] a show ?thesis
      by (auto simp: votes_def)
  next
    case False
    then have same: "count_account pa k lc = lc"
      by (auto simp: count_account_def split: option.splits)
    from False have "votes pa (k # ks) = votes pa ks"
      by (auto simp: votes_def)
    with Cons same show ?thesis by simp
  qed
qed

lemma finite_votes: "finite (votes pa ks)"
proof -
  have "votes pa ks \<subseteq> (\<lambda>k. the (pa k)) ` set ks"
    by (auto simp: votes_def intro!: image_eqI)
  then show ?thesis by (rule finite_subset) simp
qed

lemma consensus_nonempty:
  assumes "fold (count_account pa) ks ([], []) = (lastAccount, counts)" and "length counts = 1"
  shows "lastAccount \<noteq> []"
proof -
  have "card (votes pa ks) = 1"
    using fold_count_length [of pa ks] assms by simp
  then have "votes pa ks \<noteq> {}" by auto
  then have "lastAccount \<in> votes pa ks"
    using fold_count_last [of pa ks "([], [])"] assms(1) by simp
  then show ?thesis by (simp add: votes_def)
qed

lemma sequential_accounts:
  assumes named: "\<forall>k p. Providers k = Some p \<longrightarrow> Provider_Name p = k"
    and answers: "\<forall>k p w. Providers k = Some p \<longrightarrow> fst (Provider_FindActiveAccount p w) = (answer k, None)"
    and "set names \<subseteq> dom Providers"
  shows "\<exists>w'. ProvidersSequential Providers names account_action (m, w)
               = (None, ((\<lambda>k. if k \<in> set names then Some (answer k) else m k), w'))"
  using assms(3)
proof (induction names arbitrary: m w)
  case Nil
  show ?case by simp
next
  case (Cons name names)
  then obtain p where p: "Providers name = Some p" by auto
  have "fst (Provider_FindActiveAccount p w) = (answer name, None)"
    using answers p by blast
  then obtain w1 where w1: "Provider_FindActiveAccount p w = ((answer name, None), w1)"
    by (cases "Provider_FindActiveAccount p w") simp
  have one: "ForProvider Providers name account_action (m, w) = (None, (m(name \<mapsto> answer name), w1))"
    using p w1 named by (simp add: ForProvider_def account_action_def)
  have sub: "set names \<subseteq> dom Providers" using Cons.prems by simp
  from Cons.IH [OF sub, of "m(name \<mapsto> answer name)" w1] obtain w' where
    "ProvidersSequential Providers names account_action (m(name \<mapsto> answer name), w1)
       = (None, ((\<lambda>k. if k \<in> set names then Some (answer k) else (m(name \<mapsto> answer name)) k), w'))"
    by blast
  moreover have "(\<lambda>k. if k \<in> set names then Some (answer k) else (m(name \<mapsto> answer name)) k)
                   = (\<lambda>k. if k \<in> set (name # names) then Some (answer k) else m k)"
    by auto
  ultimately show ?case using one by simp
qed

lemma FindActiveAccount_cached:
  "cachedActiveAccount st \<noteq> [] \<Longrightarrow>
   FindActiveAccount Providers names order st = ((cachedActiveAccount st, None), st)"
  by (simp add: FindActiveAccount_def)

lemma FindActiveAccount_outcomes:
  assumes "FindActiveAccount Providers names order st = ((acct, e), st')"
  shows "(e = None \<longrightarrow> acct \<noteq> [] \<and> cachedActiveAccount st' = acct)
       \<and> (e \<noteq> None \<longrightarrow> cachedActiveAccount st = [] \<and> cachedActiveAccount st' = [])
       \<and> (cachedActiveAccount st \<noteq> [] \<longrightarrow> cachedActiveAccount st' = cachedActiveAccount st)"
proof (cases "cachedActiveAccount st = []")
  case False
  then have "FindActiveAccount Providers names order st = ((cachedActiveAccount st, None), st)"
    by (simp add: FindActiveAccount_def)
  with assms have "acct = cachedActiveAccount st" "e = None" "st' = st" by auto
  with False show ?thesis by simp
next
  case True
  obtain e1 pa w where ps:
    "ProvidersSequential Providers names account_action (Map.empty, backends st) = (e1, (pa, w))"
    by (cases "ProvidersSequential Providers names account_action (Map.empty, backends st)") auto
  obtain la cs where fc: "fold (count_account pa) order ([], []) = (la, cs)"
    by (cases "fold (count_account pa) order ([], [])")
  show ?thesis
  proof (cases e1)
    case (Some err)
    with True ps have "FindActiveAccount Providers names order st
                         = (([], Some err), st\<lparr>backends := w\<rparr>)"
      by (simp add: FindActiveAccount_def)
    with assms have "e = Some err" "st' = st\<lparr>backends := w\<rparr>" by auto
    with True show ?thesis by simp
  next
    case None
    consider "length cs = 0" | "length cs = 1" | "length cs \<noteq> 0" "length cs \<noteq> 1" by blast
    then show ?thesis
    proof cases
      case 1
      with True ps fc None have "FindActiveAccount Providers names order st
          = (([], Some (New ''no Providers returned any active accounts'')), st\<lparr>backends := w\<rparr>)"
        by (simp add: FindActiveAccount_def)
      with assms have "e = Some (New ''no Providers returned any active accounts'')"
        "st' = st\<lparr>backends := w\<rparr>" by auto
      with True show ?thesis by simp
    next
      case 2
      with True ps fc None have "FindActiveAccount Providers names order st
          = ((la, None), st\<lparr>cachedActiveAccount := la, backends := w\<rparr>)"
        by (auto simp: FindActiveAccount_def)
      with assms have "e = None" "acct = la"
        "st' = st\<lparr>cachedActiveAccount := la, backends := w\<rparr>" by auto
      moreover have "la \<noteq> []" using consensus_nonempty [OF fc 2] .
      ultimately show ?thesis using True by simp
    next
      case 3
      with True ps fc None have "FindActiveAccount Providers names order st
          = (([], Some (Errorf_map ''multiple active Provider accounts detected: %s'' pa)),
             st\<lparr>backends := w\<rparr>)"
        by (auto simp: FindActiveAccount_def)
      with assms have "e = Some (Errorf_map ''multiple active Provider accounts detected: %s'' pa)"
        "st' = st\<lparr>backends := w\<rparr>" by auto
      with True show ?thesis by simp
    qed
  qed
qed

lemma calls_keep_cache:
  "cachedActiveAccount st \<noteq> [] \<Longrightarrow> FindActiveAccount_calls calls st = st"
  by (induction calls arbitrary: st)
    (auto simp: FindActiveAccount_calls_def FindActiveAccount_cached)

text \<open>
  C2. The cache is empty, every backend is registered under its own \<^verbatim>\<open>Name()\<close> (as the
  \<^verbatim>\<open>Provider\<close> interface documents), and the backend registered as \<open>k\<close> answers
  \<open>answer k\<close> with a \<^verbatim>\<open>nil\<close> error. Then \<^verbatim>\<open>FindActiveAccount\<close> decides by the
  distinct non-empty answers: with none it fails with
  \<^verbatim>\<open>no Providers returned any active accounts\<close>; with exactly one it returns that
  account and stores it in the cache; with two or more it fails with the
  \<^verbatim>\<open>multiple active Provider accounts detected\<close> error, which carries the mapping from
  each provider to its answer. This holds for every order the two map loops can take.
\<close>

theorem FindActiveAccount_consensus:
  fixes Providers :: "string \<rightharpoonup> 'w Provider"
  assumes cache: "cachedActiveAccount st = []"
    and names: "range_order Providers names"
    and order: "range_order (provider_accounts Providers answer) order"
    and named: "\<forall>k p. Providers k = Some p \<longrightarrow> Provider_Name p = k"
    and answers: "\<forall>k p w. Providers k = Some p \<longrightarrow>
                    fst (Provider_FindActiveAccount p w) = (answer k, None)"
  shows "(distinct_accounts Providers answer = {} \<longrightarrow>
            fst (FindActiveAccount Providers names order st)
              = ([], Some (New ''no Providers returned any active accounts'')))
       \<and> (\<forall>a. distinct_accounts Providers answer = {a} \<longrightarrow>
             fst (FindActiveAccount Providers names order st) = (a, None)
             \<and> cachedActiveAccount (snd (FindActiveAccount Providers names order st)) = a)
       \<and> (2 \<le> card (distinct_accounts Providers answer) \<longrightarrow>
            fst (FindActiveAccount Providers names order st)
              = ([], Some (Errorf_map ''multiple active Provider accounts detected: %s''
                             (provider_accounts Providers answer))))"
proof -
  define accounts where "accounts = provider_accounts Providers answer"
  define V where "V = distinct_accounts Providers answer"
  have dn: "set names = dom Providers" using names by (simp add: range_order_def)
  have da: "dom accounts = dom Providers"
    by (auto simp: accounts_def provider_accounts_def split: option.splits)
  have do: "set order = dom Providers" using order da by (simp add: range_order_def accounts_def)
  have "(\<lambda>k. if k \<in> set names then Some (answer k) else None) = accounts"
    by (auto simp: accounts_def provider_accounts_def dn split: option.splits)
  then obtain w' where ps: "ProvidersSequential Providers names account_action (Map.empty, backends st)
                         = (None, (accounts, w'))"
    using sequential_accounts [OF named answers, of names Map.empty "backends st"] dn
    by auto
  obtain lastAccount counts where fc: "fold (count_account accounts) order ([], []) = (lastAccount, counts)"
    by (cases "fold (count_account accounts) order ([], [])")
  have vv: "votes accounts order = V"
    by (auto simp: votes_def V_def distinct_accounts_def accounts_def provider_accounts_def do
        split: option.splits)
  have len: "length counts = card V"
    using fold_count_length [of accounts order] fc vv by simp
  have fin: "finite V" using finite_votes [of accounts order] vv by simp
  have r: "FindActiveAccount Providers names order st =
             (if length counts = 0
              then (([], Some (New ''no Providers returned any active accounts'')), st\<lparr>backends := w'\<rparr>)
              else if length counts = 1
              then ((lastAccount, None), st\<lparr>cachedActiveAccount := lastAccount, backends := w'\<rparr>)
              else (([], Some (Errorf_map ''multiple active Provider accounts detected: %s'' accounts)),
                    st\<lparr>backends := w'\<rparr>))"
    using cache by (simp add: FindActiveAccount_def ps fc)
  have last: "V \<noteq> {} \<Longrightarrow> lastAccount \<in> V"
    using fold_count_last [of accounts order "([], [])"] fc vv by simp
  show ?thesis
    unfolding accounts_def [symmetric] V_def [symmetric]
  proof (intro conjI impI allI)
    assume "V = {}"
    with len have "length counts = 0" by simp
    then show "fst (FindActiveAccount Providers names order st)
                 = ([], Some (New ''no Providers returned any active accounts''))"
      by (simp add: r)
  next
    fix a assume "V = {a}"
    with last have "lastAccount = a" by simp
    moreover from \<open>V = {a}\<close> len have "length counts = 1" by simp
    ultimately show "fst (FindActiveAccount Providers names order st) = (a, None)"
      by (simp add: r)
  next
    fix a assume "V = {a}"
    with last have "lastAccount = a" by simp
    moreover from \<open>V = {a}\<close> len have "length counts = 1" by simp
    ultimately show "cachedActiveAccount (snd (FindActiveAccount Providers names order st)) = a"
      by (simp add: r)
  next
    assume "2 \<le> card V"
    with len have "length counts \<noteq> 0" "length counts \<noteq> 1" by simp_all
    then show "fst (FindActiveAccount Providers names order st)
                 = ([], Some (Errorf_map ''multiple active Provider accounts detected: %s'' accounts))"
      by (simp add: r)
  qed
qed

theorem FindActiveAccount_consensus_witness:
  "fst (FindActiveAccount silent_registry [''local''] [''local''] start)
     = ([], Some (New ''no Providers returned any active accounts''))
   \<and> fst (FindActiveAccount sample_registry [''aws'', ''gce'', ''local''] [''local'', ''gce'', ''aws''] start)
     = (''acct1'', None)
   \<and> fst (FindActiveAccount split_registry [''aws'', ''gce''] [''gce'', ''aws''] start)
     = ([], Some (Errorf_map ''multiple active Provider accounts detected: %s''
                    (provider_accounts split_registry sample_answer)))"
proof -
  have c: "cachedActiveAccount start = []" by (simp add: start_def)
  have n1: "range_order silent_registry [''local'']"
    and n2: "range_order sample_registry [''aws'', ''gce'', ''local'']"
    and n3: "range_order split_registry [''aws'', ''gce'']"
    by (auto simp: range_order_def silent_registry_def sample_registry_def split_registry_def)
  have o1: "range_order (provider_accounts silent_registry (\<lambda>k. [])) [''local'']"
    and o2: "range_order (provider_accounts sample_registry (\<lambda>k. if k = ''local'' then [] else ''acct1''))
               [''local'', ''gce'', ''aws'']"
    and o3: "range_order (provider_accounts split_registry sample_answer) [''gce'', ''aws'']"
    by (auto simp: range_order_def provider_accounts_def silent_registry_def sample_registry_def
        split_registry_def dom_def split: option.splits if_splits)
  have w1: "\<forall>k p. silent_registry k = Some p \<longrightarrow> Provider_Name p = k"
    and w2: "\<forall>k p. sample_registry k = Some p \<longrightarrow> Provider_Name p = k"
    and w3: "\<forall>k p. split_registry k = Some p \<longrightarrow> Provider_Name p = k"
    by (auto simp: silent_registry_def sample_registry_def split_registry_def sample_provider_def
        split: if_splits)
  have a1: "\<forall>k p w. silent_registry k = Some p \<longrightarrow>
              fst (Provider_FindActiveAccount p w) = ([], None)"
    and a2: "\<forall>k p w. sample_registry k = Some p \<longrightarrow>
              fst (Provider_FindActiveAccount p w) = (if k = ''local'' then [] else ''acct1'', None)"
    and a3: "\<forall>k p w. split_registry k = Some p \<longrightarrow>
              fst (Provider_FindActiveAccount p w) = (sample_answer k, None)"
    by (auto simp: silent_registry_def sample_registry_def split_registry_def sample_provider_def
        sample_answer_def split: if_splits)
  have v1: "distinct_accounts silent_registry (\<lambda>k. []) = {}"
    by (auto simp: distinct_accounts_def)
  have v2: "distinct_accounts sample_registry (\<lambda>k. if k = ''local'' then [] else ''acct1'') = {''acct1''}"
    by (auto simp: distinct_accounts_def sample_registry_def)
  have "distinct_accounts split_registry sample_answer = {''acct1'', ''acct2''}"
    by (auto simp: distinct_accounts_def split_registry_def sample_answer_def split: if_splits)
  then have v3: "2 \<le> card (distinct_accounts split_registry sample_answer)" by simp
  show ?thesis
    using FindActiveAccount_consensus [where Providers = silent_registry and answer = "\<lambda>k. []"
        and names = "[''local'']" and order = "[''local'']" and st = start, OF c n1 o1 w1 a1]
      FindActiveAccount_consensus [where Providers = sample_registry
        and answer = "\<lambda>k. if k = ''local'' then [] else ''acct1''"
        and names = "[''aws'', ''gce'', ''local'']" and order = "[''local'', ''gce'', ''aws'']"
        and st = start, OF c n2 o2 w2 a2]
      FindActiveAccount_consensus [where Providers = split_registry and answer = sample_answer
        and names = "[''aws'', ''gce'']" and order = "[''gce'', ''aws'']" and st = start,
        OF c n3 o3 w3 a3]
      v1 v2 v3
    by blast
qed

text \<open>
  C3. After a call of \<^verbatim>\<open>FindActiveAccount\<close> that returned an account with a \<^verbatim>\<open>nil\<close>
  error, the account is not empty, and a second call, whatever the registry and the
  orders by then, returns the same account and leaves the whole state as it was: the
  world behind the backends is untouched, so no backend was called.
\<close>

theorem FindActiveAccount_memoized:
  assumes "FindActiveAccount Providers names order st = ((acct, None), st')"
  shows "acct \<noteq> [] \<and> FindActiveAccount Providers' names' order' st' = ((acct, None), st')"
  using FindActiveAccount_outcomes [OF assms] FindActiveAccount_cached [of st' Providers' names' order']
  by simp

theorem FindActiveAccount_memoized_witness:
  "FindActiveAccount sample_registry [''aws'', ''gce'', ''local''] [''local'', ''gce'', ''aws''] start
     = ((''acct1'', None), \<lparr>cachedActiveAccount = ''acct1'', backends = 3\<rparr>)
   \<and> FindActiveAccount split_registry [''aws'', ''gce''] [''gce'', ''aws'']
       \<lparr>cachedActiveAccount = ''acct1'', backends = 3\<rparr>
     = ((''acct1'', None), \<lparr>cachedActiveAccount = ''acct1'', backends = 3\<rparr>)"
proof -
  have first: "FindActiveAccount sample_registry [''aws'', ''gce'', ''local''] [''local'', ''gce'', ''aws''] start
     = ((''acct1'', None), \<lparr>cachedActiveAccount = ''acct1'', backends = 3\<rparr>)"
    by (simp add: FindActiveAccount_def sample_registry_def sample_provider_def ForProvider_def
        account_action_def count_account_def start_def)
  from FindActiveAccount_memoized [where Providers = sample_registry
      and names = "[''aws'', ''gce'', ''local'']" and order = "[''local'', ''gce'', ''aws'']"
      and st = start and acct = "''acct1''" and st' = "\<lparr>cachedActiveAccount = ''acct1'', backends = 3\<rparr>"
      and Providers' = split_registry and names' = "[''aws'', ''gce'']" and order' = "[''gce'', ''aws'']",
      OF first] first
  show ?thesis by blast
qed

text \<open>
  C9. For calls made one after the other: a call that returns an error leaves the cache
  as it was, and it was empty; a call that finds the cache filled leaves it as it was; a
  call changes the cache only when it succeeds, from empty to the account it returns,
  which is not empty. So once a sequence of calls has filled the cache, no later call
  changes it.
\<close>

theorem cache_written_once:
  "(case FindActiveAccount Providers names order st of
      ((acct, e), st') \<Rightarrow>
        (e \<noteq> None \<longrightarrow> cachedActiveAccount st' = cachedActiveAccount st \<and> cachedActiveAccount st = [])
      \<and> (cachedActiveAccount st \<noteq> [] \<longrightarrow> cachedActiveAccount st' = cachedActiveAccount st)
      \<and> (cachedActiveAccount st' \<noteq> cachedActiveAccount st \<longrightarrow>
            e = None \<and> cachedActiveAccount st' = acct \<and> acct \<noteq> [] \<and> cachedActiveAccount st = []))
   \<and> (cachedActiveAccount (FindActiveAccount_calls calls st) \<noteq> [] \<longrightarrow>
        cachedActiveAccount (FindActiveAccount_calls (calls @ calls') st)
          = cachedActiveAccount (FindActiveAccount_calls calls st))"
proof -
  obtain acct e st' where r: "FindActiveAccount Providers names order st = ((acct, e), st')"
    by (cases "FindActiveAccount Providers names order st") auto
  have one: "(e \<noteq> None \<longrightarrow> cachedActiveAccount st' = cachedActiveAccount st \<and> cachedActiveAccount st = [])
      \<and> (cachedActiveAccount st \<noteq> [] \<longrightarrow> cachedActiveAccount st' = cachedActiveAccount st)
      \<and> (cachedActiveAccount st' \<noteq> cachedActiveAccount st \<longrightarrow>
            e = None \<and> cachedActiveAccount st' = acct \<and> acct \<noteq> [] \<and> cachedActiveAccount st = [])"
    using FindActiveAccount_outcomes [OF r]
    by (cases "e = None"; cases "cachedActiveAccount st = []"; simp)
  have "FindActiveAccount_calls (calls @ calls') st
          = FindActiveAccount_calls calls' (FindActiveAccount_calls calls st)"
    by (simp add: FindActiveAccount_calls_def)
  then have two: "cachedActiveAccount (FindActiveAccount_calls calls st) \<noteq> [] \<longrightarrow>
        cachedActiveAccount (FindActiveAccount_calls (calls @ calls') st)
          = cachedActiveAccount (FindActiveAccount_calls calls st)"
    by (simp add: calls_keep_cache)
  show ?thesis unfolding r prod.case using one two by blast
qed

theorem cache_written_once_witness:
  "cachedActiveAccount (snd (FindActiveAccount split_registry [''aws'', ''gce''] [''gce'', ''aws''] start)) = []
   \<and> cachedActiveAccount
        (FindActiveAccount_calls
           ([(sample_registry, [''aws'', ''gce'', ''local''], [''local'', ''gce'', ''aws''])]
            @ [(split_registry, [''aws'', ''gce''], [''gce'', ''aws''])]) start) = ''acct1''"
proof -
  have fails: "FindActiveAccount split_registry [''aws'', ''gce''] [''gce'', ''aws''] start
     = (([], Some (Errorf_map ''multiple active Provider accounts detected: %s''
           [''aws'' \<mapsto> ''acct1'', ''gce'' \<mapsto> ''acct2''])), \<lparr>cachedActiveAccount = [], backends = 2\<rparr>)"
    by (simp add: FindActiveAccount_def split_registry_def sample_provider_def ForProvider_def
        account_action_def count_account_def start_def)
  have stored: "cachedActiveAccount
        (FindActiveAccount_calls
           [(sample_registry, [''aws'', ''gce'', ''local''], [''local'', ''gce'', ''aws''])] start) = ''acct1''"
    by (simp add: FindActiveAccount_calls_def FindActiveAccount_def sample_registry_def
        sample_provider_def ForProvider_def account_action_def count_account_def start_def)
  have c: "cachedActiveAccount start = []" by (simp add: start_def)
  show ?thesis
    using cache_written_once [where Providers = split_registry and names = "[''aws'', ''gce'']"
        and order = "[''gce'', ''aws'']" and st = start
        and calls = "[(sample_registry, [''aws'', ''gce'', ''local''], [''local'', ''gce'', ''aws''])]"
        and calls' = "[(split_registry, [''aws'', ''gce''], [''gce'', ''aws''])]"]
      fails stored c
    by simp
qed

section \<open>Properties of FanOut and ProvidersParallel\<close>

text \<open>
  The first loop of \<^verbatim>\<open>FanOut\<close> partitions the list: under each provider name of the
  list stand the VMs of that provider, in the order of the list.
\<close>

lemma collate_fold:
  "fold (\<lambda>vm m. m(Provider vm \<mapsto> (case m (Provider vm) of None \<Rightarrow> [] | Some vms \<Rightarrow> vms) @ [vm])) list m k
     = (if filter (\<lambda>vm. Provider vm = k) list = [] then m k
        else Some ((case m k of None \<Rightarrow> [] | Some vms \<Rightarrow> vms) @ filter (\<lambda>vm. Provider vm = k) list))"
  by (induction list arbitrary: m) (auto split: option.splits)

lemma collate_partition:
  "collate list k
     = (if k \<in> Provider ` set list then Some (filter (\<lambda>vm. Provider vm = k) list) else None)"
proof -
  have "filter (\<lambda>vm. Provider vm = k) list = [] \<longleftrightarrow> k \<notin> Provider ` set list"
    by (auto simp: filter_empty_conv)
  then show ?thesis by (auto simp: collate_def collate_fold)
qed

lemma collate_group:
  "(case collate list name of None \<Rightarrow> [] | Some vms \<Rightarrow> vms) = filter (\<lambda>vm. Provider vm = name) list"
proof (cases "name \<in> Provider ` set list")
  case True
  then show ?thesis by (simp add: collate_partition)
next
  case False
  then have "filter (\<lambda>vm. Provider vm = name) list = []"
    by (auto simp: filter_empty_conv)
  with False show ?thesis by (simp add: collate_partition)
qed

lemma Wait_state: "snd (Wait (f # fs) s) = snd (Wait fs (snd (f s)))"
  by (simp split: prod.splits)

lemma Wait_tasks_log:
  "snd (snd (Wait (map (FanOut_task Providers (logged2 action)) entries) (s, l)))
     = l @ List.map_filter (\<lambda>nv. map_option (\<lambda>p. (p, snd nv)) (Providers (fst nv))) entries"
proof (induction entries arbitrary: s l)
  case Nil
  show ?case by (simp add: List.map_filter_simps)
next
  case (Cons nv entries)
  show ?case
  proof (cases "Providers (fst nv)")
    case None
    then have "snd (FanOut_task Providers (logged2 action) nv (s, l)) = (s, l)"
      by (simp add: FanOut_task_def)
    with None Cons [of s l] show ?thesis
      by (simp only: list.map Wait_state List.map_filter_simps option.map option.case)
  next
    case (Some p)
    obtain e s' where a: "action p (snd nv) s = (e, s')" by (cases "action p (snd nv) s")
    with Some have "snd (FanOut_task Providers (logged2 action) nv (s, l)) = (s', l @ [(p, snd nv)])"
      by (simp add: FanOut_task_def logged2_def)
    with Some Cons [of s' "l @ [(p, snd nv)]"] show ?thesis
      by (simp only: list.map Wait_state List.map_filter_simps option.map option.case
          append_assoc append_Cons append_Nil)
  qed
qed

text \<open>
  When every goroutine reads the values of its own iteration, the dispatch is the one
  intended: \<^verbatim>\<open>FanOut\<close> invokes the action once for each registered provider name of the
  list, with the resolved provider and that provider's VMs, and returns an
  \<^verbatim>\<open>unknown provider name\<close> error when a name of the list is not registered and the
  action does not fail; \<^verbatim>\<open>ProvidersParallel\<close> invokes the action for every name and
  returns the one error.
\<close>

lemma FanOut_own_iteration:
  "snd (snd (FanOut Providers list (logged2 action) order [0..<length order] (s, l)))
     = l @ List.map_filter
             (\<lambda>name. map_option (\<lambda>p. (p, filter (\<lambda>vm. Provider vm = name) list))
                        (Providers name)) order"
proof -
  let ?entries = "map (\<lambda>name. (name, filter (\<lambda>vm. Provider vm = name) list)) order"
  have own: "map (\<lambda>i. FanOut_task Providers (logged2 action) (?entries ! i)) [0..<length order]
               = map (FanOut_task Providers (logged2 action)) ?entries"
    by (rule nth_equalityI) simp_all
  have "List.map_filter (\<lambda>nv. map_option (\<lambda>p. (p, snd nv)) (Providers (fst nv))) ?entries
          = List.map_filter
              (\<lambda>name. map_option (\<lambda>p. (p, filter (\<lambda>vm. Provider vm = name) list)) (Providers name))
              order"
    by (induction order) (auto simp: List.map_filter_simps split: option.splits)
  then show ?thesis
    by (simp only: FanOut_def Let_def collate_group own Wait_tasks_log)
qed

lemma Wait_result:
  "fst (Wait (f # fs) s) = (case fst (f s) of Some err \<Rightarrow> Some err | None \<Rightarrow> fst (Wait fs (snd (f s))))"
  by (cases "f s"; cases "Wait fs (snd (f s))") (auto split: option.splits)

lemma Wait_tasks_error:
  assumes "\<forall>p vms s. fst (action p vms s) = None"
  shows "fst (Wait (map (FanOut_task Providers action) entries) s)
           = (case filter (\<lambda>nv. Providers (fst nv) = None) entries of
                [] \<Rightarrow> None
              | nv # _ \<Rightarrow> Some (New (''unknown provider name: '' @ fst nv)))"
proof (induction entries arbitrary: s)
  case Nil
  show ?case by simp
next
  case (Cons nv entries)
  show ?case
  proof (cases "Providers (fst nv)")
    case None
    then have "fst (FanOut_task Providers action nv s) = Some (New (''unknown provider name: '' @ fst nv))"
      by (simp add: FanOut_task_def)
    with None show ?thesis
      by (simp add: Wait_result del: Wait.simps)
  next
    case (Some p)
    then have "fst (FanOut_task Providers action nv s) = None"
      using assms by (simp add: FanOut_task_def)
    with Some Cons [of "snd (FanOut_task Providers action nv s)"] show ?thesis
      by (simp add: Wait_result del: Wait.simps)
  qed
qed

lemma FanOut_own_iteration_error:
  assumes "\<forall>p vms s. fst (action p vms s) = None"
    and "X \<in> set order" and "Providers X = None"
  shows "\<exists>Y \<in> set order. Providers Y = None
           \<and> fst (FanOut Providers list action order [0..<length order] s)
               = Some (New (''unknown provider name: '' @ Y))"
proof -
  let ?entries = "map (\<lambda>name. (name, filter (\<lambda>vm. Provider vm = name) list)) order"
  have own: "map (\<lambda>i. FanOut_task Providers action (?entries ! i)) [0..<length order]
               = map (FanOut_task Providers action) ?entries"
    by (rule nth_equalityI) simp_all
  have r: "fst (FanOut Providers list action order [0..<length order] s)
             = (case filter (\<lambda>nv. Providers (fst nv) = None) ?entries of
                  [] \<Rightarrow> None
                | nv # _ \<Rightarrow> Some (New (''unknown provider name: '' @ fst nv)))"
    by (simp only: FanOut_def Let_def collate_group own Wait_tasks_error [OF assms(1)])
  have "(X, filter (\<lambda>vm. Provider vm = X) list) \<in> set (filter (\<lambda>nv. Providers (fst nv) = None) ?entries)"
    using assms(2,3) by auto
  then obtain nv rest where f: "filter (\<lambda>nv. Providers (fst nv) = None) ?entries = nv # rest"
    by (cases "filter (\<lambda>nv. Providers (fst nv) = None) ?entries") auto
  then have "nv \<in> set (filter (\<lambda>nv. Providers (fst nv) = None) ?entries)" by simp
  then have "fst nv \<in> set order" "Providers (fst nv) = None" by auto
  with r f show ?thesis by auto
qed

lemma ProvidersParallel_own_iteration:
  assumes "Providers A = Some pA" and "Providers B = Some pB" and "Providers C = Some pC"
    and "action pA s = (None, s1)" and "action pB s1 = (Some err, s2)"
    and "action pC s2 = (None, s3)"
  shows "ProvidersParallel Providers [A, B, C] (logged action) [0, 1, 2] (s, l)
           = (Some (Wrapf err (''in provider: '' @ B)), (s3, l @ [pA, pB, pC]))"
  using assms by (simp add: ProvidersParallel_def ForProvider_def logged_def)

text \<open>
  C1. The code does not do this on every run. The list holds two VMs of \<^verbatim>\<open>aws\<close> and one
  of \<^verbatim>\<open>gce\<close>, both registered; the map loop visits \<^verbatim>\<open>aws\<close> then \<^verbatim>\<open>gce\<close>, and both
  goroutines run once the loop is in its second iteration. Both read \<^verbatim>\<open>gce\<close> and its
  sub-list: the action is invoked twice for \<^verbatim>\<open>gce\<close> and never for \<^verbatim>\<open>aws\<close>.
\<close>

theorem FanOut_reads_shared_loop_variables:
  "schedule 2 [1, 1]
   \<and> range_order (collate sample_list) [''aws'', ''gce'']
   \<and> FanOut sample_registry sample_list (logged2 count_vms) [''aws'', ''gce''] [1, 1] (0, [])
       = (None,
          (2, [(sample_provider ''gce'' ''acct1'', [sample_vm ''n2'' ''gce'' ''us-east1-b'']),
               (sample_provider ''gce'' ''acct1'', [sample_vm ''n2'' ''gce'' ''us-east1-b''])]))"
  by (auto simp: schedule_def range_order_def FanOut_def collate_def sample_list_def sample_vm_def
      FanOut_task_def logged2_def count_vms_def sample_registry_def)

text \<open>
  C5. The code does not do this on every run either. The list holds one VM of \<^verbatim>\<open>azure\<close>,
  which is not registered, and one of \<^verbatim>\<open>aws\<close>; the map loop visits \<^verbatim>\<open>azure\<close> then
  \<^verbatim>\<open>aws\<close>, and both goroutines run once the loop is in its second iteration. Both read
  \<^verbatim>\<open>aws\<close>: the action is invoked twice for it, and \<^verbatim>\<open>FanOut\<close> returns \<^verbatim>\<open>nil\<close>, with no
  \<^verbatim>\<open>unknown provider name\<close> error.
\<close>

theorem FanOut_unknown_provider_unreported:
  "schedule 2 [1, 1]
   \<and> range_order (collate stray_list) [''azure'', ''aws'']
   \<and> sample_registry ''azure'' = None
   \<and> FanOut sample_registry stray_list (logged2 count_vms) [''azure'', ''aws''] [1, 1] (0, [])
       = (None,
          (2, [(sample_provider ''aws'' ''acct1'', [sample_vm ''n2'' ''aws'' ''us-east-2b'']),
               (sample_provider ''aws'' ''acct1'', [sample_vm ''n2'' ''aws'' ''us-east-2b''])]))"
  by (auto simp: schedule_def range_order_def FanOut_def collate_def stray_list_def sample_vm_def
      FanOut_task_def logged2_def count_vms_def sample_registry_def)

text \<open>
  C7. Nor does \<^verbatim>\<open>ProvidersParallel\<close>. Over the names \<^verbatim>\<open>aws\<close>, \<^verbatim>\<open>gce\<close>, \<^verbatim>\<open>local\<close>, all
  registered, with an action that fails for \<^verbatim>\<open>gce\<close> only, and the three goroutines
  running once the loop is in its last iteration: all three read \<^verbatim>\<open>local\<close>, the action
  is invoked three times for it and never for \<^verbatim>\<open>aws\<close> or \<^verbatim>\<open>gce\<close>, and the result is
  \<^verbatim>\<open>nil\<close>, not the error of \<^verbatim>\<open>gce\<close>.
\<close>

theorem ProvidersParallel_reads_shared_loop_variable:
  "schedule 3 [2, 2, 2]
   \<and> ProvidersParallel sample_registry [''aws'', ''gce'', ''local''] (logged (fail_on ''gce''))
         [2, 2, 2] (0, [])
       = (None,
          (3, [sample_provider ''local'' [], sample_provider ''local'' [],
               sample_provider ''local'' []]))"
  by (simp add: schedule_def ProvidersParallel_def ForProvider_def logged_def fail_on_def
      sample_registry_def sample_provider_def)

end
